theory Spec2Isabelle
  imports Main "HOL-Library.Word"
begin

unbundle bit_operations_syntax

section \<open>Modular arithmetic on 64-bit unsigned integers\<close>

text \<open>
  The C type \<open>uint64_t\<close> is the type of 64-bit words: \<open>+\<close> and \<open>-\<close> wrap around
  modulo \<open>2 ^ 64\<close>, \<open>mod\<close> and \<open>div\<close> are the unsigned operations, \<open>unat\<close> reads a
  word as the natural number it stands for.

  The remainder \<open>x % m\<close> of C is undefined for \<open>m = 0\<close> (the program traps), whereas
  \<open>x mod 0 = x\<close> in HOL. Every function that evaluates \<open>% m\<close> therefore returns an
  option: \<open>None\<close> means that the call does not return a value.
\<close>

type_synonym uint64_t = "64 word"

text \<open>
  \<^verbatim>\<open>
  uint64_t mod_add(uint64_t a, uint64_t b, uint64_t m)
  {
      uint64_t result = 0;
      if (a>=m-b){ result = a -(m-b); }else{ result = a+b; }
      return result % m;
  }
  \<close>
\<close>

definition mod_add :: "uint64_t \<Rightarrow> uint64_t \<Rightarrow> uint64_t \<Rightarrow> uint64_t option" where
  "mod_add a b m =
     (let result = (if a \<ge> m - b then a - (m - b) else a + b)
      in if m = 0 then None else Some (result mod m))"

text \<open>
  Whether one of the additions and subtractions that \<open>mod_add a b m\<close> evaluates leaves
  the 64-bit range: \<open>m - b\<close> is always evaluated, then \<open>a - (m - b)\<close> or \<open>a + b\<close>,
  according to the branch taken.
\<close>

definition sub_wraps :: "uint64_t \<Rightarrow> uint64_t \<Rightarrow> bool" where
  "sub_wraps x y = (unat x < unat y)"

definition add_wraps :: "uint64_t \<Rightarrow> uint64_t \<Rightarrow> bool" where
  "add_wraps x y = (2 ^ 64 \<le> unat x + unat y)"

definition mod_add_wraps :: "uint64_t \<Rightarrow> uint64_t \<Rightarrow> uint64_t \<Rightarrow> bool" where
  "mod_add_wraps a b m =
     (sub_wraps m b \<or> (if a \<ge> m - b then sub_wraps a (m - b) else add_wraps a b))"

text \<open>
  \<^verbatim>\<open>
  uint64_t mod_sub(uint64_t a, uint64_t b, uint64_t m)
  {
      if (a < b) { return (a + m - b) % m; }
      return (a - b) % m;
  }
  \<close>
\<close>

definition mod_sub :: "uint64_t \<Rightarrow> uint64_t \<Rightarrow> uint64_t \<Rightarrow> uint64_t option" where
  "mod_sub a b m =
     (if a < b then (if m = 0 then None else Some ((a + m - b) mod m))
      else (if m = 0 then None else Some ((a - b) mod m)))"

text \<open>
  \<^verbatim>\<open>
  uint64_t mod_mul(uint64_t a, uint64_t b, uint64_t m)
  {
      uint64_t r = 0;
      a = a % m;
      while (b > 0) {
          if (b & 1) { r = mod_add(r, a, m); }
          b = b >> 1;
          a = mod_add(a, a, m);
      }
      return r;
  }
  \<close>
  The loop is a recursive function of the variables \<open>r\<close>, \<open>a\<close>, \<open>b\<close> it updates; it
  terminates because \<open>b >> 1\<close> is smaller than \<open>b\<close> whenever \<open>b > 0\<close>.
\<close>

function mod_mul_loop ::
  "uint64_t \<Rightarrow> uint64_t \<Rightarrow> uint64_t \<Rightarrow> uint64_t \<Rightarrow> uint64_t option" where
  "mod_mul_loop r a b m =
     (if b > 0 then
        (case (if b AND 1 \<noteq> 0 then mod_add r a m else Some r) of
           None \<Rightarrow> None
         | Some r' \<Rightarrow>
             (case mod_add a a m of
                None \<Rightarrow> None
              | Some a' \<Rightarrow> mod_mul_loop r' a' (drop_bit 1 b) m))
      else Some r)"
  by pat_completeness auto
termination
  by (relation "measure (\<lambda>(r, a, b, m). unat b)")
    (auto simp: word_less_nat_alt drop_bit_eq_div unat_div)

definition mod_mul :: "uint64_t \<Rightarrow> uint64_t \<Rightarrow> uint64_t \<Rightarrow> uint64_t option" where
  "mod_mul a b m = (if m = 0 then None else mod_mul_loop 0 (a mod m) b m)"

text \<open>
  Whether one of the calls of \<open>mod_add\<close> made by the loop of \<open>mod_mul\<close> wraps around:
  the same recursion as \<open>mod_mul_loop\<close>, collecting \<open>mod_add_wraps\<close> at each call.
\<close>

function mod_mul_loop_wraps ::
  "uint64_t \<Rightarrow> uint64_t \<Rightarrow> uint64_t \<Rightarrow> uint64_t \<Rightarrow> bool" where
  "mod_mul_loop_wraps r a b m =
     (if b > 0 then
        (b AND 1 \<noteq> 0 \<and> mod_add_wraps r a m) \<or> mod_add_wraps a a m \<or>
        (case (if b AND 1 \<noteq> 0 then mod_add r a m else Some r) of
           None \<Rightarrow> False
         | Some r' \<Rightarrow>
             (case mod_add a a m of
                None \<Rightarrow> False
              | Some a' \<Rightarrow> mod_mul_loop_wraps r' a' (drop_bit 1 b) m))
      else False)"
  by pat_completeness auto
termination
  by (relation "measure (\<lambda>(r, a, b, m). unat b)")
    (auto simp: word_less_nat_alt drop_bit_eq_div unat_div)

definition mod_mul_wraps :: "uint64_t \<Rightarrow> uint64_t \<Rightarrow> uint64_t \<Rightarrow> bool" where
  "mod_mul_wraps a b m = mod_mul_loop_wraps 0 (a mod m) b m"

text \<open>
  \<^verbatim>\<open>
  uint64_t mod_pow(uint64_t a, uint64_t b, uint64_t m)
  {
      uint64_t r = 1;
      a = a % m;
      while (b > 0) {
          if (b & 1) { r = mod_mul(r, a, m); }
          b = b >> 1;
          a = mod_mul(a, a, m);
      }
      return r;
  }
  \<close>
\<close>

function mod_pow_loop ::
  "uint64_t \<Rightarrow> uint64_t \<Rightarrow> uint64_t \<Rightarrow> uint64_t \<Rightarrow> uint64_t option" where
  "mod_pow_loop r a b m =
     (if b > 0 then
        (case (if b AND 1 \<noteq> 0 then mod_mul r a m else Some r) of
           None \<Rightarrow> None
         | Some r' \<Rightarrow>
             (case mod_mul a a m of
                None \<Rightarrow> None
              | Some a' \<Rightarrow> mod_pow_loop r' a' (drop_bit 1 b) m))
      else Some r)"
  by pat_completeness auto
termination
  by (relation "measure (\<lambda>(r, a, b, m). unat b)")
    (auto simp: word_less_nat_alt drop_bit_eq_div unat_div)

definition mod_pow :: "uint64_t \<Rightarrow> uint64_t \<Rightarrow> uint64_t \<Rightarrow> uint64_t option" where
  "mod_pow a b m = (if m = 0 then None else mod_pow_loop 1 (a mod m) b m)"

section \<open>The Miller-Rabin test\<close>

text \<open>
  Modelled from the spec: the header \<open>miller_rabin.h\<close>, which declares \<open>BASELEN\<close>, is
  not part of the sources. The spec fixes the base sequence to the 12 primes that
  initialise the array \<open>a\<close>, so \<open>BASELEN\<close> is 12.
\<close>

definition BASELEN :: nat where
  "BASELEN = 12"

text \<open>
  \<^verbatim>\<open>const uint64_t a[BASELEN] = {2,3,5,7,11,13,17,19,23,29,31,37};\<close>
  The array is called \<open>a_tab\<close> here, since \<open>a\<close> also names the parameters above.
\<close>

definition a_tab :: "uint64_t list" where
  "a_tab = [2, 3, 5, 7, 11, 13, 17, 19, 23, 29, 31, 37]"

text \<open>
  \<^verbatim>\<open>
  uint64_t r = 0;
  uint64_t d = n - 1;
  while (d % 2 == 0) { d /= 2; r++; }
  \<close>
  For \<open>d = 0\<close> this loop never ends, so it is a partial function: \<open>None\<close> stands for
  a loop that does not return.
\<close>

partial_function (option) decompose ::
  "uint64_t \<Rightarrow> uint64_t \<Rightarrow> (uint64_t \<times> uint64_t) option" where
  "decompose d r = (if d mod 2 = 0 then decompose (d div 2) (r + 1) else Some (d, r))"

declare decompose.simps [code]

text \<open>
  \<^verbatim>\<open>
  int composite = 1;
  for (uint64_t j = 0; j < r - 1; j++) {
      x = mod_mul(x, x, n);
      if (x == n - 1) { composite = 0; break; }
  }
  \<close>
  The function returns the value of \<open>composite\<close> after the loop.
\<close>

function inner_loop :: "uint64_t \<Rightarrow> uint64_t \<Rightarrow> uint64_t \<Rightarrow> uint64_t \<Rightarrow> int option" where
  "inner_loop x n j r =
     (if j < r - 1 then
        (case mod_mul x x n of
           None \<Rightarrow> None
         | Some x' \<Rightarrow> if x' = n - 1 then Some 0 else inner_loop x' n (j + 1) r)
      else Some 1)"
  by pat_completeness auto
termination
proof (relation "measure (\<lambda>(x, n, j, r). unat (r - 1) - unat j)", goal_cases)
  case 1
  show ?case
    by simp
next
  case (2 x n j r x')
  then have less: "unat j < unat (r - 1)"
    by (simp add: word_less_nat_alt)
  have "unat (r - 1) < 2 ^ 64"
    using unsigned_less [of "r - 1", where 'a = nat] by simp
  with less have "unat j + unat (1 :: uint64_t) < 2 ^ 64"
    by simp
  then have "unat (j + 1) = unat j + 1"
    by (simp add: unat_add_lem [THEN iffD1])
  with less show ?case
    by simp
qed

text \<open>
  \<^verbatim>\<open>
  for (int i = 0; i < BASELEN; i++) {
      uint64_t a_i = a[i];
      if (a_i > n - 2) break;
      uint64_t x = mod_pow(a_i, d, n);
      if (x == 1 || x == n - 1) continue;
      ... inner loop ...
      if (composite) return 0;
  }
  return 1;
  \<close>
  The index \<open>i\<close> stays within \<open>0..BASELEN\<close>, so it is a natural number here, and
  \<open>a[i]\<close> is read only for \<open>i < BASELEN\<close>, inside the array.
\<close>

function base_loop :: "uint64_t \<Rightarrow> uint64_t \<Rightarrow> uint64_t \<Rightarrow> nat \<Rightarrow> int option" where
  "base_loop n d r i =
     (if i < BASELEN then
        (let a_i = a_tab ! i in
         if a_i > n - 2 then Some 1
         else
           (case mod_pow a_i d n of
              None \<Rightarrow> None
            | Some x \<Rightarrow>
                if x = 1 \<or> x = n - 1 then base_loop n d r (i + 1)
                else
                  (case inner_loop x n 0 r of
                     None \<Rightarrow> None
                   | Some composite \<Rightarrow>
                       if composite \<noteq> 0 then Some 0 else base_loop n d r (i + 1))))
      else Some 1)"
  by pat_completeness auto
termination
  by (relation "measure (\<lambda>(n, d, r, i). BASELEN - i)") auto

text \<open>
  Whether the base \<open>a_i\<close> makes the loop over the bases return 0: the body of that
  loop after the range check, that is \<open>x = a_i ^ d mod n\<close> is neither 1 nor \<open>n - 1\<close>
  and the squaring loop ends with \<open>composite\<close> set.
\<close>

definition base_rejects :: "uint64_t \<Rightarrow> uint64_t \<Rightarrow> uint64_t \<Rightarrow> uint64_t \<Rightarrow> bool" where
  "base_rejects n d r a_i =
     (case mod_pow a_i d n of
        None \<Rightarrow> False
      | Some x \<Rightarrow>
          if x = 1 \<or> x = n - 1 then False
          else
            (case inner_loop x n 0 r of
               None \<Rightarrow> False
             | Some composite \<Rightarrow> composite \<noteq> 0))"

text \<open>
  \<^verbatim>\<open>
  int miller_rabin(uint64_t n)
  {
      if (n < 2) return 0;
      if (n == 2 || n == 3) return 1;
      if (n % 2 == 0) return 0;
      ... decomposition of n - 1, loop over the bases ...
  }
  \<close>
\<close>

definition miller_rabin :: "uint64_t \<Rightarrow> int option" where
  "miller_rabin n =
     (if n < 2 then Some 0
      else if n = 2 \<or> n = 3 then Some 1
      else if n mod 2 = 0 then Some 0
      else
        (case decompose (n - 1) 0 of
           None \<Rightarrow> None
         | Some (d, r) \<Rightarrow> base_loop n d r 0))"

section \<open>Auxiliary facts about 64-bit words\<close>

lemma unat_lt64: "unat (x :: uint64_t) < 2 ^ 64"
  using unsigned_less [of x, where 'a = nat] by simp

lemma word_one_le:
  fixes m :: uint64_t
  shows "1 \<le> m \<longleftrightarrow> m \<noteq> 0"
  by (simp add: word_le_nat_alt Suc_le_eq unat_gt_0)

lemma word_and_1_odd:
  fixes b :: uint64_t
  shows "b AND 1 \<noteq> 0 \<longleftrightarrow> odd (unat b)"
proof -
  have "b AND 1 = b mod 2"
    by (rule and_one_eq)
  moreover have "b mod 2 = 0 \<longleftrightarrow> unat (b mod 2) = 0"
    by (simp add: unsigned_eq_0_iff)
  moreover have "unat (b mod 2) = unat b mod 2"
    by (simp add: unat_mod)
  ultimately show ?thesis
    by (simp add: even_iff_mod_2_eq_zero)
qed

lemma unat_drop_bit_1:
  fixes b :: uint64_t
  shows "unat (drop_bit 1 b) = unat b div 2"
  by (simp add: drop_bit_eq_div unat_div)

lemma word_mod_less:
  fixes x m :: uint64_t
  shows "m \<noteq> 0 \<Longrightarrow> x mod m < m"
  by (simp add: word_mod_less_divisor word_neq_0_conv)

lemma word_mod_mod:
  fixes a m :: uint64_t
  shows "a mod m mod m = a mod m"
proof -
  have "unat (a mod m mod m) = unat (a mod m)"
    by (simp only: unat_mod mod_mod_trivial)
  then show ?thesis
    by (simp only: word_unat_eq_iff)
qed

section \<open>Addition and subtraction modulo \<open>m\<close>\<close>

lemma mod_add_Some:
  "m \<noteq> 0 \<Longrightarrow> mod_add a b m = Some ((if a \<ge> m - b then a - (m - b) else a + b) mod m)"
  by (simp add: mod_add_def)

lemma mod_add_branch_sub:
  fixes a b m :: uint64_t
  assumes "a < m" and "b < m" and "m - b \<le> a"
  shows "unat (a - (m - b)) = unat a + unat b - unat m"
proof -
  have mb: "unat (m - b) = unat m - unat b"
    using assms(2) by (simp add: unat_sub)
  have "unat (a - (m - b)) = unat a - unat (m - b)"
    using assms(3) by (simp add: unat_sub)
  with mb show ?thesis
    using assms(2) by (simp add: word_less_nat_alt)
qed

lemma mod_add_branch_add:
  fixes a b m :: uint64_t
  assumes "b < m" and "\<not> m - b \<le> a"
  shows "unat (a + b) = unat a + unat b" and "unat a + unat b < unat m"
proof -
  have mb: "unat (m - b) = unat m - unat b"
    using assms(1) by (simp add: unat_sub)
  have "unat a < unat m - unat b"
    using assms(2) mb by (simp add: word_le_nat_alt)
  then show lt: "unat a + unat b < unat m"
    by simp
  then have "unat a + unat b < 2 ^ 64"
    using unat_lt64 [of m] by simp
  then show "unat (a + b) = unat a + unat b"
    by (simp add: unat_add_lem [THEN iffD1])
qed

lemma mod_add_value:
  fixes a b m :: uint64_t
  assumes "a < m" and "b < m"
  shows "\<exists>r. mod_add a b m = Some r \<and> unat r = (unat a + unat b) mod unat m \<and> r < m"
proof -
  from assms have m0: "m \<noteq> 0" by auto
  have lt: "unat a < unat m" "unat b < unat m"
    using assms by (simp_all add: word_less_nat_alt)
  show ?thesis
  proof (cases "m - b \<le> a")
    case True
    have "unat (a - (m - b)) = unat a + unat b - unat m"
      using assms True by (rule mod_add_branch_sub)
    moreover have "unat m \<le> unat a + unat b"
    proof -
      have "unat (m - b) = unat m - unat b"
        using assms(2) by (simp add: unat_sub)
      with True show ?thesis by (simp add: word_le_nat_alt)
    qed
    ultimately have "unat ((a - (m - b)) mod m) = (unat a + unat b) mod unat m"
      using lt by (simp add: unat_mod le_mod_geq)
    moreover have "(a - (m - b)) mod m < m"
      using m0 by (simp add: word_mod_less_divisor word_neq_0_conv)
    ultimately show ?thesis
      using True m0 by (simp add: mod_add_def)
  next
    case False
    have "unat (a + b) = unat a + unat b"
      using assms(2) False by (rule mod_add_branch_add)
    then have "unat ((a + b) mod m) = (unat a + unat b) mod unat m"
      by (simp add: unat_mod)
    moreover have "(a + b) mod m < m"
      using m0 by (simp add: word_mod_less_divisor word_neq_0_conv)
    ultimately show ?thesis
      using False m0 by (simp add: mod_add_def)
  qed
qed

lemma mod_add_no_wrap:
  fixes a b m :: uint64_t
  assumes "a < m" and "b < m"
  shows "\<not> mod_add_wraps a b m"
proof -
  have 1: "\<not> sub_wraps m b"
    using assms(2) by (simp add: sub_wraps_def word_less_nat_alt)
  have 2: "m - b \<le> a \<Longrightarrow> \<not> sub_wraps a (m - b)"
    by (simp add: sub_wraps_def word_le_nat_alt)
  have 3: "\<not> m - b \<le> a \<Longrightarrow> \<not> add_wraps a b"
    using mod_add_branch_add(2) [OF assms(2), of a] unat_lt64 [of m]
    by (simp add: add_wraps_def)
  from 1 2 3 show ?thesis
    by (simp add: mod_add_wraps_def)
qed


lemma mod_sub_range:
  fixes a b m :: uint64_t
  assumes "m \<noteq> 0"
  shows "\<exists>r. mod_sub a b m = Some r \<and> r < m"
  using assms by (simp add: mod_sub_def word_mod_less)

lemma mod_sub_ge:
  fixes a b m :: uint64_t
  assumes "m \<noteq> 0" and "b \<le> a"
  shows "\<exists>r. mod_sub a b m = Some r \<and> uint r = (uint a - uint b) mod uint m"
proof -
  have "uint (a - b) = uint a - uint b"
    using assms(2) by (simp add: uint_sub_lem [THEN iffD1] word_le_def)
  then have "uint ((a - b) mod m) = (uint a - uint b) mod uint m"
    by (simp add: uint_mod)
  moreover have "\<not> a < b"
    using assms(2) by simp
  ultimately show ?thesis
    using assms(1) by (simp add: mod_sub_def)
qed

lemma mod_sub_lt:
  fixes a b m :: uint64_t
  assumes "m \<noteq> 0" and "a < b" and "unat b - unat a \<le> unat m"
  shows "\<exists>r. mod_sub a b m = Some r \<and> uint r = (uint a - uint b) mod uint m"
proof -
  have ab: "uint a < uint b"
    using assms(2) by (simp add: word_less_def)
  have "unat a < unat b"
    using assms(2) by (simp add: word_less_nat_alt)
  with assms(3) have "unat b \<le> unat m + unat a"
    by simp
  then have "int (unat b) \<le> int (unat m) + int (unat a)"
    by (simp only: of_nat_add [symmetric] of_nat_le_iff)
  then have bm: "uint b - uint a \<le> uint m"
    unfolding uint_nat by linarith
  have "uint (a + m - b) = (uint (a + m) - uint b) mod 2 ^ 64"
    by (simp add: uint_word_ariths)
  also have "\<dots> = ((uint a + uint m) mod 2 ^ 64 - uint b) mod 2 ^ 64"
    by (simp add: uint_word_ariths)
  also have "\<dots> = (uint a + uint m - uint b) mod 2 ^ 64"
    by (simp add: mod_diff_left_eq)
  also have "\<dots> = uint a + uint m - uint b"
  proof -
    have "0 \<le> uint a + uint m - uint b"
      using bm by simp
    moreover have "uint a + uint m - uint b < 2 ^ 64"
      using ab uint_lt2p [of m] by simp
    ultimately show ?thesis
      by simp
  qed
  finally have "uint ((a + m - b) mod m) = (uint a + uint m - uint b) mod uint m"
    by (simp add: uint_mod)
  also have "\<dots> = (uint a - uint b) mod uint m"
  proof -
    have "uint a + uint m - uint b = (uint a - uint b) + uint m"
      by simp
    then show ?thesis
      by (simp only: mod_add_self2)
  qed
  finally show ?thesis
    using assms(1,2) by (simp add: mod_sub_def)
qed

text \<open>
  Claim C2. For operands \<open>a < m\<close> and \<open>b < m\<close>, \<open>mod_add a b m\<close> returns
  \<open>(a + b) mod m\<close>, the sum being the one of the natural numbers: the branch
  \<open>a \<ge> m - b\<close> yields \<open>a - (m - b)\<close>, the other one \<open>a + b\<close>, both reduced modulo
  \<open>m\<close>, and none of the additions and subtractions evaluated leaves the 64-bit range.
\<close>

theorem mod_add_correct:
  fixes a b m :: uint64_t
  assumes "a < m" and "b < m"
  shows "\<exists>r. mod_add a b m = Some r
           \<and> r = (if a \<ge> m - b then a - (m - b) else a + b) mod m
           \<and> unat r = (unat a + unat b) mod unat m
           \<and> \<not> mod_add_wraps a b m"
proof -
  from assms have "m \<noteq> 0"
    by auto
  then have "mod_add a b m = Some ((if a \<ge> m - b then a - (m - b) else a + b) mod m)"
    by (rule mod_add_Some)
  moreover obtain r where "mod_add a b m = Some r" "unat r = (unat a + unat b) mod unat m"
    using mod_add_value [OF assms] by blast
  moreover have "\<not> mod_add_wraps a b m"
    using assms by (rule mod_add_no_wrap)
  ultimately show ?thesis
    by simp
qed

theorem mod_add_correct_witness:
  "(18446744073709551614 :: uint64_t) < 18446744073709551615
     \<and> (18446744073709551613 :: uint64_t) < 18446744073709551615
     \<and> mod_add 18446744073709551614 18446744073709551613 18446744073709551615
         = Some 18446744073709551612
     \<and> \<not> mod_add_wraps 18446744073709551614 18446744073709551613 18446744073709551615"
  using mod_add_correct [of 18446744073709551614 18446744073709551615 18446744073709551613]
  by simp

text \<open>
  Claim C3, as stated: for all \<open>a\<close>, \<open>b\<close> and every \<open>m \<ge> 1\<close>, \<open>mod_sub a b m\<close> is the
  mathematical \<open>(a - b) mod m\<close>. It fails when \<open>a < b\<close> and \<open>b - a > m\<close>: adding \<open>m\<close>
  once does not make the difference non-negative, and \<open>a + m - b\<close> wraps around.
  For \<open>a = 0\<close>, \<open>b = 5\<close>, \<open>m = 3\<close> the function returns \<open>(2 ^ 64 - 2) mod 3 = 2\<close>,
  whereas \<open>(0 - 5) mod 3 = 1\<close>.
\<close>

theorem mod_sub_counterexample:
  "1 \<le> (3 :: uint64_t) \<and> mod_sub 0 5 3 = Some 2
     \<and> uint (2 :: uint64_t) \<noteq> (uint (0 :: uint64_t) - uint (5 :: uint64_t)) mod uint (3 :: uint64_t)"
  by (simp add: mod_sub_def)

text \<open>
  Claim C3, amended: for every \<open>m \<ge> 1\<close> and all \<open>a\<close>, \<open>b\<close> the result of
  \<open>mod_sub a b m\<close> lies in \<open>[0, m)\<close>; it is the mathematical \<open>(a - b) mod m\<close> whenever
  \<open>a \<ge> b\<close> or \<open>b - a \<le> m\<close>, which covers all operands below \<open>m\<close>.
\<close>

theorem mod_sub_correct:
  fixes a b m :: uint64_t
  assumes "1 \<le> m"
  shows "\<exists>r. mod_sub a b m = Some r \<and> r < m
           \<and> (b \<le> a \<or> unat b - unat a \<le> unat m \<longrightarrow> uint r = (uint a - uint b) mod uint m)"
proof -
  from assms have m0: "m \<noteq> 0"
    by (simp add: word_one_le)
  obtain r where r: "mod_sub a b m = Some r" "r < m"
    using mod_sub_range [OF m0] by blast
  have "uint r = (uint a - uint b) mod uint m" if "b \<le> a \<or> unat b - unat a \<le> unat m"
  proof (cases "b \<le> a")
    case True
    with mod_sub_ge [OF m0 True, of ] r(1) show ?thesis
      by simp
  next
    case False
    then have "a < b"
      by simp
    moreover from False that have "unat b - unat a \<le> unat m"
      by simp
    ultimately show ?thesis
      using mod_sub_lt [OF m0, of a b] r(1) by simp
  qed
  with r show ?thesis
    by simp
qed

theorem mod_sub_correct_witness:
  "1 \<le> (7 :: uint64_t) \<and> mod_sub 3 5 7 = Some 5 \<and> (5 :: uint64_t) < 7
     \<and> uint (5 :: uint64_t) = (uint (3 :: uint64_t) - uint (5 :: uint64_t)) mod uint (7 :: uint64_t)"
  using mod_sub_correct [of 7 3 5] by (simp add: mod_sub_def)

text \<open>
  Claim C8. For operands \<open>a < m\<close> and \<open>b < m\<close>, subtracting \<open>b\<close> undoes adding \<open>b\<close>:
  \<open>mod_sub (mod_add a b m) b m\<close> is \<open>a\<close>.
\<close>

theorem mod_sub_add_inverse:
  fixes a b m :: uint64_t
  assumes "a < m" and "b < m"
  shows "\<exists>s. mod_add a b m = Some s \<and> mod_sub s b m = Some a"
proof -
  from assms have m0: "m \<noteq> 0"
    by auto
  obtain s where s: "mod_add a b m = Some s" "unat s = (unat a + unat b) mod unat m" "s < m"
    using mod_add_value [OF assms] by blast
  have cond: "b \<le> s \<or> (s < b \<and> unat b - unat s \<le> unat m)"
    using assms(2) by (auto simp: word_less_nat_alt word_le_nat_alt)
  then obtain r where r: "mod_sub s b m = Some r" "uint r = (uint s - uint b) mod uint m"
    using mod_sub_ge [OF m0, of b s] mod_sub_lt [OF m0, of s b] by blast
  have "int (unat s) = int ((unat a + unat b) mod unat m)"
    using s(2) by simp
  then have "uint s = (uint a + uint b) mod uint m"
    unfolding uint_nat by (simp only: zmod_int of_nat_add)
  then have "uint r = ((uint a + uint b) mod uint m - uint b) mod uint m"
    using r(2) by simp
  also have "\<dots> = (uint a + uint b - uint b) mod uint m"
    by (simp only: mod_diff_left_eq)
  also have "\<dots> = uint a"
    using assms(1) by (simp add: word_less_def)
  finally have "r = a"
    by (simp add: word_uint_eq_iff)
  with s(1) r(1) show ?thesis
    by simp
qed


theorem mod_sub_add_inverse_witness:
  "(5 :: uint64_t) < 7 \<and> (6 :: uint64_t) < 7
     \<and> (\<exists>s. mod_add 5 6 7 = Some s \<and> mod_sub s 6 7 = Some 5)"
  using mod_sub_add_inverse [of 5 7 6] by simp

section \<open>Multiplication and exponentiation modulo \<open>m\<close>\<close>

lemma mod_add_mult_step:
  fixes x y z m :: nat
  shows "(x mod m + (y mod m) * z) mod m = (x + y * z) mod m"
proof -
  have "(x mod m + (y mod m) * z) mod m = (x mod m + ((y mod m) * z) mod m) mod m"
    by (simp only: mod_add_right_eq)
  also have "((y mod m) * z) mod m = (y * z) mod m"
    by (rule mod_mult_left_eq)
  also have "(x mod m + (y * z) mod m) mod m = (x + y * z) mod m"
    by (rule mod_add_eq)
  finally show ?thesis .
qed

lemma mod_mul_loop_value:
  fixes r a b m :: uint64_t
  assumes "r < m" and "a < m"
  shows "\<exists>r'. mod_mul_loop r a b m = Some r'
            \<and> unat r' = (unat r + unat a * unat b) mod unat m \<and> r' < m
            \<and> \<not> mod_mul_loop_wraps r a b m"
  using assms
proof (induction "unat b" arbitrary: r a b rule: less_induct)
  case less
  show ?case
  proof (cases "b > 0")
    case False
    then have b0: "b = 0"
      by (simp add: word_neq_0_conv [symmetric])
    have "unat r < unat m"
      using less.prems(1) by (simp add: word_less_nat_alt)
    with b0 less.prems(1) show ?thesis
      by simp
  next
    case True
    let ?c = "b AND 1 \<noteq> 0"
    obtain r1 where r1: "(if ?c then mod_add r a m else Some r) = Some r1"
        "unat r1 = (unat r + unat a * (unat b mod 2)) mod unat m" "r1 < m"
        "\<not> (?c \<and> mod_add_wraps r a m)"
    proof (cases ?c)
      case True
      then have "unat b mod 2 = 1"
        by (simp add: word_and_1_odd odd_iff_mod_2_eq_one)
      moreover obtain s where "mod_add r a m = Some s" "unat s = (unat r + unat a) mod unat m" "s < m"
        using mod_add_value [OF less.prems] by blast
      moreover have "\<not> mod_add_wraps r a m"
        using less.prems by (rule mod_add_no_wrap)
      ultimately show ?thesis
        using True that by simp
    next
      case False
      then have "unat b mod 2 = 0"
        by (simp add: word_and_1_odd even_iff_mod_2_eq_zero)
      moreover have "unat r < unat m"
        using less.prems(1) by (simp add: word_less_nat_alt)
      ultimately show ?thesis
        using False that less.prems(1) by simp
    qed
    obtain a1 where a1: "mod_add a a m = Some a1" "unat a1 = (unat a + unat a) mod unat m" "a1 < m"
      using mod_add_value [OF less.prems(2) less.prems(2)] by blast
    have nw: "\<not> mod_add_wraps a a m"
      using less.prems(2) less.prems(2) by (rule mod_add_no_wrap)
    have "0 < unat b"
      using True by (simp add: word_less_nat_alt)
    then have dec: "unat (drop_bit 1 b) < unat b"
      unfolding unat_drop_bit_1 by simp
    obtain r' where r': "mod_mul_loop r1 a1 (drop_bit 1 b) m = Some r'"
        "unat r' = (unat r1 + unat a1 * unat (drop_bit 1 b)) mod unat m" "r' < m"
        "\<not> mod_mul_loop_wraps r1 a1 (drop_bit 1 b) m"
      using less.hyps [OF dec r1(3) a1(3)] by blast
    have "unat r' = (unat r + unat a * unat b) mod unat m"
    proof -
      define k q where "k = unat b div 2" and "q = unat b mod 2"
      have b: "unat b = q + 2 * k"
        by (simp add: k_def q_def)
      have "unat r' = ((unat r + unat a * q) mod unat m
                        + ((unat a + unat a) mod unat m) * k) mod unat m"
        using r'(2) r1(2) a1(2) unfolding unat_drop_bit_1 k_def q_def by simp
      also have "\<dots> = ((unat r + unat a * q) + (unat a + unat a) * k) mod unat m"
        by (rule mod_add_mult_step)
      also have "(unat r + unat a * q) + (unat a + unat a) * k = unat r + unat a * (q + 2 * k)"
        by (simp add: algebra_simps)
      finally show ?thesis
        by (simp only: b)
    qed
    moreover have "mod_mul_loop r a b m = Some r'"
      using True r1(1) a1(1) r'(1) by (subst mod_mul_loop.simps) simp
    moreover have "\<not> mod_mul_loop_wraps r a b m"
      using True r1(1,4) a1(1) nw r'(4) by (subst mod_mul_loop_wraps.simps) simp
    ultimately show ?thesis
      using r'(3) by simp
  qed
qed


lemma mod_mul_value:
  fixes a b m :: uint64_t
  assumes "m \<noteq> 0"
  shows "\<exists>r. mod_mul a b m = Some r \<and> unat r = (unat a * unat b) mod unat m \<and> r < m
           \<and> \<not> mod_mul_wraps a b m"
proof -
  have "0 < m"
    using assms by (simp add: word_neq_0_conv [symmetric])
  moreover have "a mod m < m"
    using assms by (rule word_mod_less)
  ultimately obtain r where r: "mod_mul_loop 0 (a mod m) b m = Some r"
      "unat r = (unat (0 :: uint64_t) + unat (a mod m) * unat b) mod unat m" "r < m"
      "\<not> mod_mul_loop_wraps 0 (a mod m) b m"
    using mod_mul_loop_value [of 0 m "a mod m" b] by blast
  have "unat r = ((unat a mod unat m) * unat b) mod unat m"
    using r(2) by (simp add: unat_mod)
  also have "\<dots> = (unat a * unat b) mod unat m"
    by (rule mod_mult_left_eq)
  finally show ?thesis
    using r(1,3,4) assms by (simp add: mod_mul_def mod_mul_wraps_def)
qed

lemma pow_step:
  fixes x1 y r a q k m :: nat
  assumes "x1 mod m = (r * a ^ q) mod m" and "y = (a * a) mod m"
  shows "(x1 * y ^ k) mod m = (r * a ^ (q + 2 * k)) mod m"
proof -
  have "(x1 * y ^ k) mod m = ((x1 mod m) * (y ^ k mod m)) mod m"
    by (simp only: mod_mult_eq)
  also have "y ^ k mod m = (a * a) ^ k mod m"
    unfolding assms(2) by (rule power_mod)
  also have "((x1 mod m) * ((a * a) ^ k mod m)) mod m = ((r * a ^ q) * (a * a) ^ k) mod m"
    unfolding assms(1) by (rule mod_mult_eq)
  also have "(r * a ^ q) * (a * a) ^ k = r * a ^ (q + 2 * k)"
    by (simp add: power_add power_mult power2_eq_square)
  finally show ?thesis .
qed

lemma mod_pow_loop_value:
  fixes r a b m :: uint64_t
  assumes "m \<noteq> 0"
  shows "\<exists>r'. mod_pow_loop r a b m = Some r'
            \<and> unat r' mod unat m = (unat r * unat a ^ unat b) mod unat m
            \<and> (b \<noteq> 0 \<longrightarrow> r' < m) \<and> (b = 0 \<longrightarrow> r' = r)"
proof (induction "unat b" arbitrary: r a b rule: less_induct)
  case less
  show ?case
  proof (cases "b > 0")
    case False
    then have b0: "b = 0"
      by (simp add: word_neq_0_conv [symmetric])
    then show ?thesis
      by simp
  next
    case True
    then have bpos: "0 < unat b"
      by (simp add: word_less_nat_alt)
    define k q where "k = unat b div 2" and "q = unat b mod 2"
    have b: "unat b = q + 2 * k"
      by (simp add: k_def q_def)
    let ?c = "b AND 1 \<noteq> 0"
    obtain r1 where r1: "(if ?c then mod_mul r a m else Some r) = Some r1"
        "unat r1 mod unat m = (unat r * unat a ^ q) mod unat m" "?c \<longrightarrow> r1 < m"
    proof (cases ?c)
      case True
      then have "q = 1"
        by (simp add: q_def word_and_1_odd odd_iff_mod_2_eq_one)
      moreover obtain s where "mod_mul r a m = Some s" "unat s = (unat r * unat a) mod unat m" "s < m"
        using mod_mul_value [OF assms, of r a] by blast
      ultimately show ?thesis
        using True that by simp
    next
      case False
      then have "q = 0"
        by (simp add: q_def word_and_1_odd even_iff_mod_2_eq_zero)
      then show ?thesis
        using False that by simp
    qed
    obtain a1 where a1: "mod_mul a a m = Some a1" "unat a1 = (unat a * unat a) mod unat m"
      using mod_mul_value [OF assms, of a a] by blast
    have dec: "unat (drop_bit 1 b) < unat b"
      using bpos unfolding unat_drop_bit_1 by simp
    obtain r' where r': "mod_pow_loop r1 a1 (drop_bit 1 b) m = Some r'"
        "unat r' mod unat m = (unat r1 * unat a1 ^ unat (drop_bit 1 b)) mod unat m"
        "drop_bit 1 b \<noteq> 0 \<longrightarrow> r' < m" "drop_bit 1 b = 0 \<longrightarrow> r' = r1"
      using less.hyps [OF dec, of r1 a1] by blast
    have "unat r' mod unat m = (unat r1 * unat a1 ^ k) mod unat m"
      using r'(2) unfolding unat_drop_bit_1 k_def .
    also have "\<dots> = (unat r * unat a ^ (q + 2 * k)) mod unat m"
      using r1(2) a1(2) by (rule pow_step)
    finally have val: "unat r' mod unat m = (unat r * unat a ^ unat b) mod unat m"
      by (simp only: b)
    have lt: "r' < m"
    proof (cases "drop_bit 1 b = 0")
      case False
      with r'(3) show ?thesis
        by simp
    next
      case True
      then have "unat (drop_bit 1 b) = 0"
        by simp
      then have "k = 0"
        unfolding unat_drop_bit_1 k_def .
      with b bpos have "q = 1"
        unfolding q_def by simp
      then have ?c
        by (simp add: q_def word_and_1_odd odd_iff_mod_2_eq_one)
      with r1(3) r'(4) True show ?thesis
        by simp
    qed
    have "mod_pow_loop r a b m = Some r'"
      using True r1(1) a1(1) r'(1) by (subst mod_pow_loop.simps) simp
    moreover have "b \<noteq> 0"
      using True by auto
    ultimately show ?thesis
      using val lt by simp
  qed
qed


lemma mod_pow_value:
  fixes a b m :: uint64_t
  assumes "m \<noteq> 0"
  shows "\<exists>r. mod_pow a b m = Some r
           \<and> (m \<noteq> 1 \<or> b \<noteq> 0 \<longrightarrow> unat r = unat a ^ unat b mod unat m \<and> r < m)
           \<and> (b = 0 \<longrightarrow> r = 1)"
proof -
  obtain r where r: "mod_pow_loop 1 (a mod m) b m = Some r"
      "unat r mod unat m = (unat (1 :: uint64_t) * unat (a mod m) ^ unat b) mod unat m"
      "b \<noteq> 0 \<longrightarrow> r < m" "b = 0 \<longrightarrow> r = 1"
    using mod_pow_loop_value [OF assms, of 1 "a mod m" b] by blast
  have val: "unat r mod unat m = unat a ^ unat b mod unat m"
    using r(2) by (simp add: unat_mod power_mod)
  have "unat r = unat a ^ unat b mod unat m \<and> r < m" if "m \<noteq> 1 \<or> b \<noteq> 0"
  proof (cases "b = 0")
    case False
    with r(3) have "r < m"
      by simp
    then have "unat r mod unat m = unat r"
      by (simp add: word_less_nat_alt)
    with val \<open>r < m\<close> show ?thesis
      by simp
  next
    case True
    with that have "m \<noteq> 1"
      by simp
    have "unat m \<noteq> unat (0 :: uint64_t)" "unat m \<noteq> unat (1 :: uint64_t)"
      using assms \<open>m \<noteq> 1\<close> by (simp_all only: word_unat_eq_iff [symmetric] not_False_eq_True)
    then have "1 < unat m"
      by simp
    moreover have "r = 1"
      using True r(4) by simp
    ultimately show ?thesis
      using True by (simp add: word_less_nat_alt)
  qed
  with r(1,4) assms show ?thesis
    by (simp add: mod_pow_def)
qed

section \<open>Termination of the Miller-Rabin test\<close>

lemma decompose_returns:
  fixes d r :: uint64_t
  assumes "d \<noteq> 0"
  shows "\<exists>d' r'. decompose d r = Some (d', r') \<and> d' mod 2 \<noteq> 0"
  using assms
proof (induction "unat d" arbitrary: d r rule: less_induct)
  case less
  show ?case
  proof (cases "d mod 2 = 0")
    case False
    then show ?thesis
      by (subst decompose.simps) simp
  next
    case True
    have pos: "0 < unat d"
      using less.prems by (simp add: unat_gt_0)
    have half: "unat (d div 2) = unat d div 2"
      by (simp add: unat_div)
    have "unat (d mod 2) = 0"
      using True by simp
    then have "unat d mod 2 = 0"
      by (simp add: unat_mod)
    with pos have "2 \<le> unat d"
      by presburger
    then have "unat (d div 2) \<noteq> 0"
      unfolding half by simp
    then have nz: "d div 2 \<noteq> 0"
      by (simp add: unat_eq_0)
    have dec: "unat (d div 2) < unat d"
      unfolding half using pos by simp
    obtain d' r' where "decompose (d div 2) (r + 1) = Some (d', r')" "d' mod 2 \<noteq> 0"
      using less.hyps [OF dec nz, of "r + 1"] by blast
    with True show ?thesis
      by (subst decompose.simps) simp
  qed
qed

lemma inner_loop_returns:
  fixes x n j r :: uint64_t
  assumes "n \<noteq> 0"
  shows "\<exists>c. inner_loop x n j r = Some c \<and> (c = 0 \<or> c = 1)"
  using assms
proof (induction x n j r rule: inner_loop.induct)
  case (1 x n j r)
  show ?case
  proof (cases "j < r - 1")
    case False
    then show ?thesis
      by (subst inner_loop.simps) simp
  next
    case True
    obtain x' where x': "mod_mul x x n = Some x'"
      using mod_mul_value [OF "1.prems", of x x] by blast
    show ?thesis
    proof (cases "x' = n - 1")
      case True
      with \<open>j < r - 1\<close> x' show ?thesis
        by (subst inner_loop.simps) simp
    next
      case False
      with "1.IH" [OF True x' False "1.prems"] True x' show ?thesis
        by (subst inner_loop.simps) simp
    qed
  qed
qed

lemma base_loop_returns:
  fixes n d r :: uint64_t
  assumes "n \<noteq> 0"
  shows "\<exists>v. base_loop n d r i = Some v \<and> (v = 0 \<or> v = 1)"
  using assms
proof (induction n d r i rule: base_loop.induct)
  case (1 n d r i)
  show ?case
  proof (cases "i < BASELEN")
    case False
    then show ?thesis
      by (subst base_loop.simps) simp
  next
    case inb: True
    show ?thesis
    proof (cases "a_tab ! i > n - 2")
      case True
      with inb show ?thesis
        by (subst base_loop.simps) simp
    next
      case nobreak: False
      obtain x where x: "mod_pow (a_tab ! i) d n = Some x"
        using mod_pow_value [OF "1.prems", of "a_tab ! i" d] by blast
      show ?thesis
      proof (cases "x = 1 \<or> x = n - 1")
        case True
        with "1.IH"(1) [OF inb refl nobreak x True "1.prems"] inb nobreak x show ?thesis
          by (subst base_loop.simps) simp
      next
        case nocont: False
        obtain c where c: "inner_loop x n 0 r = Some c" "c = 0 \<or> c = 1"
          using inner_loop_returns [OF "1.prems", of x 0 r] by blast
        show ?thesis
        proof (cases "c \<noteq> 0")
          case True
          with inb nobreak x nocont c show ?thesis
            by (subst base_loop.simps) simp
        next
          case False
          with "1.IH"(2) [OF inb refl nobreak x nocont c(1) False "1.prems"]
            inb nobreak x nocont c show ?thesis
            by (subst base_loop.simps) simp
        qed
      qed
    qed
  qed
qed

section \<open>Correctness of multiplication and exponentiation, totality of the test\<close>

text \<open>
  Claim C4. For all \<open>a\<close>, \<open>b\<close> and every \<open>m \<ge> 1\<close>, \<open>mod_mul a b m\<close> returns
  \<open>(a * b) mod m\<close>, the product being the one of the natural numbers, and no call of
  \<open>mod_add\<close> made by the double-and-add loop wraps around.
\<close>

theorem mod_mul_correct:
  fixes a b m :: uint64_t
  assumes "1 \<le> m"
  shows "\<exists>r. mod_mul a b m = Some r \<and> unat r = (unat a * unat b) mod unat m
           \<and> \<not> mod_mul_wraps a b m"
proof -
  from assms have "m \<noteq> 0"
    by (simp add: word_one_le)
  then show ?thesis
    using mod_mul_value [of m a b] by blast
qed

theorem mod_mul_correct_witness:
  "1 \<le> (18446744073709551557 :: uint64_t)
     \<and> (\<exists>r. mod_mul 18446744073709551556 3 18446744073709551557 = Some r
           \<and> unat r = (18446744073709551556 * 3) mod 18446744073709551557
           \<and> \<not> mod_mul_wraps 18446744073709551556 3 18446744073709551557)"
  using mod_mul_correct [of 18446744073709551557 18446744073709551556 3] by simp

text \<open>
  Claim C5, as stated: for all \<open>a\<close>, \<open>b\<close> and every \<open>m \<ge> 1\<close>, \<open>mod_pow a b m\<close> is
  \<open>(a ^ b) mod m\<close>. It fails for \<open>m = 1\<close> and \<open>b = 0\<close>: the loop is not entered and the
  initial \<open>r = 1\<close> is returned unreduced, whereas \<open>(a ^ 0) mod 1 = 0\<close>.
\<close>

theorem mod_pow_counterexample:
  "1 \<le> (1 :: uint64_t) \<and> mod_pow 2 0 1 = Some 1
     \<and> unat (1 :: uint64_t) \<noteq> unat (2 :: uint64_t) ^ unat (0 :: uint64_t) mod unat (1 :: uint64_t)"
  by (simp add: mod_pow_def)

text \<open>
  Claim C5, amended: for all \<open>a\<close>, \<open>b\<close> and every \<open>m \<ge> 1\<close>, except for \<open>m = 1\<close>
  together with \<open>b = 0\<close>, \<open>mod_pow a b m\<close> returns \<open>(a ^ b) mod m\<close>; for \<open>b = 0\<close> it
  returns 1, whatever \<open>m \<ge> 1\<close> is.
\<close>

theorem mod_pow_correct:
  fixes a b m :: uint64_t
  assumes "1 \<le> m"
  shows "\<exists>r. mod_pow a b m = Some r
           \<and> (2 \<le> m \<or> 0 < b \<longrightarrow> unat r = unat a ^ unat b mod unat m)
           \<and> (b = 0 \<longrightarrow> r = 1)"
proof -
  from assms have m0: "m \<noteq> 0"
    by (simp add: word_one_le)
  obtain r where r: "mod_pow a b m = Some r"
      "m \<noteq> 1 \<or> b \<noteq> 0 \<longrightarrow> unat r = unat a ^ unat b mod unat m \<and> r < m" "b = 0 \<longrightarrow> r = 1"
    using mod_pow_value [OF m0, of a b] by blast
  have "m \<noteq> 1 \<or> b \<noteq> 0" if "2 \<le> m \<or> 0 < b"
    using that by (auto simp: word_le_nat_alt)
  with r show ?thesis
    by blast
qed

theorem mod_pow_correct_witness:
  "1 \<le> (1000 :: uint64_t)
     \<and> (\<exists>r. mod_pow 2 10 1000 = Some r \<and> unat r = 2 ^ 10 mod 1000)"
  using mod_pow_correct [of 1000 2 10] by simp

text \<open>
  Claim C6, as stated: for every \<open>m \<ge> 1\<close> the results of the four functions lie in
  \<open>[0, m)\<close>. It fails for \<open>mod_pow\<close> at \<open>m = 1\<close> and \<open>b = 0\<close>, where the result is 1.
\<close>

theorem range_counterexample:
  "1 \<le> (1 :: uint64_t) \<and> mod_pow 3 0 1 = Some 1 \<and> \<not> (1 :: uint64_t) < 1"
  by (simp add: mod_pow_def)

text \<open>
  Claim C6, amended: for every \<open>m \<ge> 1\<close> and all \<open>a\<close>, \<open>b\<close>, the results of \<open>mod_add\<close>,
  \<open>mod_sub\<close> and \<open>mod_mul\<close> lie in \<open>[0, m)\<close>, and so does the result of \<open>mod_pow\<close>
  unless \<open>m = 1\<close> and \<open>b = 0\<close>.
\<close>

theorem range_invariant:
  fixes a b m :: uint64_t
  assumes "1 \<le> m"
  shows "(\<exists>r. mod_add a b m = Some r \<and> r < m)
           \<and> (\<exists>r. mod_sub a b m = Some r \<and> r < m)
           \<and> (\<exists>r. mod_mul a b m = Some r \<and> r < m)
           \<and> (\<exists>r. mod_pow a b m = Some r \<and> (2 \<le> m \<or> 0 < b \<longrightarrow> r < m))"
proof -
  from assms have m0: "m \<noteq> 0"
    by (simp add: word_one_le)
  have "\<exists>r. mod_add a b m = Some r \<and> r < m"
    using m0 by (simp add: mod_add_def Let_def word_mod_less)
  moreover have "\<exists>r. mod_sub a b m = Some r \<and> r < m"
    using m0 by (rule mod_sub_range)
  moreover have "\<exists>r. mod_mul a b m = Some r \<and> r < m"
    using mod_mul_value [OF m0, of a b] by blast
  moreover have "\<exists>r. mod_pow a b m = Some r \<and> (2 \<le> m \<or> 0 < b \<longrightarrow> r < m)"
  proof -
    obtain r where r: "mod_pow a b m = Some r"
        "m \<noteq> 1 \<or> b \<noteq> 0 \<longrightarrow> unat r = unat a ^ unat b mod unat m \<and> r < m"
      using mod_pow_value [OF m0, of a b] by blast
    have "m \<noteq> 1 \<or> b \<noteq> 0" if "2 \<le> m \<or> 0 < b"
      using that by (auto simp: word_le_nat_alt)
    with r show ?thesis
      by blast
  qed
  ultimately show ?thesis
    by simp
qed

theorem range_invariant_witness:
  "1 \<le> (7 :: uint64_t)
     \<and> (\<exists>r. mod_add 5 6 7 = Some r \<and> r < 7)
     \<and> (\<exists>r. mod_sub 5 6 7 = Some r \<and> r < 7)
     \<and> (\<exists>r. mod_mul 5 6 7 = Some r \<and> r < 7)
     \<and> (\<exists>r. mod_pow 5 6 7 = Some r \<and> r < 7)"
  using range_invariant [of 7 5 6] by simp

text \<open>
  Claim C10. For every \<open>m \<ge> 1\<close>, \<open>mod_mul\<close> and \<open>mod_pow\<close> reduce their first operand
  themselves: replacing \<open>a\<close> by \<open>a mod m\<close> does not change the result.
\<close>

theorem first_operand_reduced:
  fixes a b m :: uint64_t
  assumes "1 \<le> m"
  shows "mod_mul a b m = mod_mul (a mod m) b m \<and> mod_pow a b m = mod_pow (a mod m) b m"
  unfolding mod_mul_def mod_pow_def by (simp only: word_mod_mod)

theorem first_operand_reduced_witness:
  "1 \<le> (7 :: uint64_t) \<and> mod_mul 10 3 7 = mod_mul (10 mod 7) 3 7
     \<and> mod_pow 10 3 7 = mod_pow (10 mod 7) 3 7"
proof -
  have "1 \<le> (7 :: uint64_t)"
    by simp
  with first_operand_reduced [of 7 10 3] show ?thesis
    by blast
qed

text \<open>
  Claim C9. \<open>miller_rabin\<close> returns for every 64-bit input, and what it returns is 0 or
  1: the decomposition loop is entered with \<open>d = n - 1 \<noteq> 0\<close> only, where it ends, and
  the loops of \<open>mod_mul\<close>, \<open>mod_pow\<close>, the squaring loop and the loop over the bases are
  total functions, the modulus \<open>n\<close> being nonzero.
\<close>

theorem miller_rabin_returns:
  "\<exists>v. miller_rabin n = Some v \<and> (v = 0 \<or> v = 1)"
proof (cases "n < 2")
  case True
  then show ?thesis
    by (simp add: miller_rabin_def)
next
  case ge2: False
  show ?thesis
  proof (cases "n = 2 \<or> n = 3")
    case True
    with ge2 show ?thesis
      unfolding miller_rabin_def by (simp only: if_True if_False) simp
  next
    case ne: False
    show ?thesis
    proof (cases "n mod 2 = 0")
      case True
      with ge2 ne show ?thesis
        unfolding miller_rabin_def by (simp only: if_True if_False) simp
    next
      case odd: False
      from ge2 have n0: "n \<noteq> 0" and n1: "n - 1 \<noteq> 0"
        by auto
      obtain d r where dr: "decompose (n - 1) 0 = Some (d, r)"
        using decompose_returns [OF n1, of 0] by blast
      obtain v where "base_loop n d r 0 = Some v" "v = 0 \<or> v = 1"
        using base_loop_returns [OF n0, of d r 0] by blast
      with ge2 ne odd dr show ?thesis
        unfolding miller_rabin_def by (simp only: if_True if_False) simp
    qed
  qed
qed

section \<open>Leaving the loop over the bases early\<close>

lemma base_loop_break:
  fixes n d r :: uint64_t
  assumes "i < BASELEN" and "n - 2 < a_tab ! i"
  shows "base_loop n d r i = Some 1"
  using assms by (subst base_loop.simps) simp

lemma base_loop_prefix:
  fixes n d r :: uint64_t
  assumes "n \<noteq> 0" and "k < BASELEN" and "n - 2 < a_tab ! k"
    and "\<forall>j. i \<le> j \<and> j < k \<longrightarrow> \<not> base_rejects n d r (a_tab ! j)" and "i \<le> k"
  shows "base_loop n d r i = Some 1"
  using assms(4,5)
proof (induction "k - i" arbitrary: i)
  case 0
  then have "i = k"
    by simp
  with assms(2,3) show ?case
    by (simp add: base_loop_break)
next
  case (Suc m)
  then have ik: "i < k" and inb: "i < BASELEN"
    using assms(2) by simp_all
  have next_ok: "base_loop n d r (i + 1) = Some 1"
  proof (rule Suc.hyps(1))
    show "m = k - (i + 1)"
      using Suc.hyps(2) by simp
    show "\<forall>j. i + 1 \<le> j \<and> j < k \<longrightarrow> \<not> base_rejects n d r (a_tab ! j)"
      using Suc.prems(1) by simp
    show "i + 1 \<le> k"
      using ik by simp
  qed
  have norej: "\<not> base_rejects n d r (a_tab ! i)"
    using Suc.prems(1) ik by simp
  show ?case
  proof (cases "n - 2 < a_tab ! i")
    case True
    with inb show ?thesis
      by (rule base_loop_break)
  next
    case nobreak: False
    obtain x where x: "mod_pow (a_tab ! i) d n = Some x"
      using mod_pow_value [OF assms(1), of "a_tab ! i" d] by blast
    show ?thesis
    proof (cases "x = 1 \<or> x = n - 1")
      case True
      with inb nobreak x next_ok show ?thesis
        by (subst base_loop.simps) simp
    next
      case nocont: False
      obtain c where c: "inner_loop x n 0 r = Some c"
        using inner_loop_returns [OF assms(1), of x 0 r] by blast
      with norej x nocont have "c = 0"
        by (simp add: base_rejects_def)
      with inb nobreak x nocont c next_ok show ?thesis
        by (subst base_loop.simps) simp
    qed
  qed
qed

text \<open>
  Claim C7. Let \<open>n > 3\<close> be odd and \<open>n - 1 = d * 2 ^ r\<close> the decomposition computed.
  When the loop over the bases arrives at an index \<open>i\<close> with \<open>a[i] > n - 2\<close>, it stops
  there with the verdict prime, whatever the later bases are; so if none of the bases
  before \<open>i\<close> has rejected \<open>n\<close>, \<open>miller_rabin n\<close> returns 1.
\<close>

theorem early_exit_prime:
  fixes n d r d' r' :: uint64_t
  assumes "3 < n" and "n mod 2 = 1"
    and "decompose (n - 1) 0 = Some (d, r)"
    and "i < BASELEN" and "n - 2 < a_tab ! i"
    and "\<forall>j<i. \<not> base_rejects n d r (a_tab ! j)"
  shows "base_loop n d' r' i = Some 1 \<and> miller_rabin n = Some 1"
proof -
  have n0: "n \<noteq> 0"
    using assms(1) by auto
  have "base_loop n d r 0 = Some 1"
    using n0 assms(4,5) 
  proof (rule base_loop_prefix)
    show "\<forall>j. 0 \<le> j \<and> j < i \<longrightarrow> \<not> base_rejects n d r (a_tab ! j)"
      using assms(6) by simp
    show "0 \<le> i"
      by simp
  qed
  moreover have "\<not> n < 2" "\<not> (n = 2 \<or> n = 3)" "\<not> n mod 2 = 0"
    using assms(1,2) by (auto simp: word_less_nat_alt)
  ultimately have "miller_rabin n = Some 1"
    using assms(3) unfolding miller_rabin_def by (simp only: if_True if_False) simp
  moreover have "base_loop n d' r' i = Some 1"
    using assms(4,5) by (rule base_loop_break)
  ultimately show ?thesis
    by simp
qed

theorem early_exit_prime_witness:
  "3 < (13 :: uint64_t) \<and> (13 :: uint64_t) mod 2 = 1
     \<and> decompose (13 - 1) 0 = Some (3, 2)
     \<and> 5 < BASELEN \<and> (13 :: uint64_t) - 2 < a_tab ! 5
     \<and> \<not> base_rejects 13 3 2 (a_tab ! 0) \<and> \<not> base_rejects 13 3 2 (a_tab ! 1)
     \<and> \<not> base_rejects 13 3 2 (a_tab ! 2) \<and> \<not> base_rejects 13 3 2 (a_tab ! 3)
     \<and> \<not> base_rejects 13 3 2 (a_tab ! 4)
     \<and> base_loop 13 0 0 5 = Some 1 \<and> miller_rabin 13 = Some 1"
proof -
  have h1: "3 < (13 :: uint64_t)" and h2: "(13 :: uint64_t) mod 2 = 1"
    by simp_all
  have h3: "decompose (13 - 1) 0 = Some (3, 2)"
    by code_simp
  have h4: "5 < BASELEN"
    by (simp add: BASELEN_def)
  have h5: "(13 :: uint64_t) - 2 < a_tab ! 5"
    by (simp add: a_tab_def)
  have r0: "\<not> base_rejects 13 3 2 (a_tab ! 0)"
    by code_simp
  have r1: "\<not> base_rejects 13 3 2 (a_tab ! 1)"
    by code_simp
  have r2: "\<not> base_rejects 13 3 2 (a_tab ! 2)"
    by code_simp
  have r3: "\<not> base_rejects 13 3 2 (a_tab ! 3)"
    by code_simp
  have r4: "\<not> base_rejects 13 3 2 (a_tab ! 4)"
    by code_simp
  have h6: "\<forall>j<5. \<not> base_rejects 13 3 2 (a_tab ! j)"
  proof (intro allI impI)
    fix j :: nat
    assume "j < 5"
    then consider "j = 0" | "j = 1" | "j = 2" | "j = 3" | "j = 4"
      by linarith
    then show "\<not> base_rejects 13 3 2 (a_tab ! j)"
    proof cases
      case 1
      show ?thesis unfolding 1 by (rule r0)
    next
      case 2
      show ?thesis unfolding 2 by (rule r1)
    next
      case 3
      show ?thesis unfolding 3 by (rule r2)
    next
      case 4
      show ?thesis unfolding 4 by (rule r3)
    next
      case 5
      show ?thesis unfolding 5 by (rule r4)
    qed
  qed
  from early_exit_prime [OF h1 h2 h3 h4 h5 h6, of 0 0] h1 h2 h3 h4 h5 r0 r1 r2 r3 r4
  show ?thesis
    by blast
qed

section \<open>Verdicts on known inputs\<close>

text \<open>
  The test evaluated on the small inputs the specification lists: 0, 1, the squares 4
  and 9 and the Carmichael number 561 are rejected, 2 and 3 are accepted.
\<close>

lemma miller_rabin_known_composites:
  "miller_rabin 0 = Some 0" "miller_rabin 1 = Some 0" "miller_rabin 4 = Some 0"
  "miller_rabin 9 = Some 0" "miller_rabin 561 = Some 0"
  by code_simp+

lemma miller_rabin_known_primes:
  "miller_rabin 2 = Some 1" "miller_rabin 3 = Some 1"
  by code_simp+

end
